theory Spec2Isabelle
  imports Complex_Main "HOL-Library.AList"
begin

section \<open>Naming classifier\<close>

text \<open>
  Names are Python \<open>str\<close> values, modelled as \<open>string\<close>: a list of characters with code
  points below 256. In that range the class \<open>\d\<close> of the pattern \<open>\.\d{3}$\<close> is exactly
  the ten ASCII digits. Without the MULTILINE flag, \<open>$\<close> matches at the end of the string
  and also just before a newline that is the last character of the string.
\<close>

definition is_decimal_digit :: "char \<Rightarrow> bool" where
  "is_decimal_digit c = (c \<in> set ''0123456789'')"

text \<open>The pattern \<open>\.\d{3}$\<close> matched at the start of the remaining input \<open>s\<close>.\<close>

fun match_here :: "string \<Rightarrow> bool" where
  "match_here [c0, c1, c2, c3] =
     (c0 = CHR ''.'' \<and> is_decimal_digit c1 \<and> is_decimal_digit c2 \<and> is_decimal_digit c3)"
| "match_here [c0, c1, c2, c3, c4] =
     (c0 = CHR ''.'' \<and> is_decimal_digit c1 \<and> is_decimal_digit c2 \<and> is_decimal_digit c3
      \<and> c4 = CHR 0x0A)"
| "match_here s = False"

text \<open>\<open>re.search\<close>: try the pattern at every position, from the left.\<close>

fun re_search :: "string \<Rightarrow> bool" where
  "re_search [] = match_here []"
| "re_search (c # cs) = (match_here (c # cs) \<or> re_search cs)"

text \<open>
  \<open>re.sub\<close> with the empty replacement: every match (four characters) is dropped and the
  scan goes on behind it; an unmatched character is copied.
\<close>

fun re_sub :: "string \<Rightarrow> string" where
  "re_sub [] = []"
| "re_sub (c # cs) = (if match_here (c # cs) then re_sub (drop 3 cs) else c # re_sub cs)"

definition is_duplicate :: "string \<Rightarrow> bool" where
  "is_duplicate name = re_search name"

definition get_original_name :: "string \<Rightarrow> string" where
  "get_original_name name = re_sub name"

section \<open>Data model\<close>

text \<open>
  JSON-compatible Python values. A Python \<open>dict\<close> keeps insertion order and has unique
  keys: it is an association list whose keys are distinct (\<open>is_dict\<close>). Assigning to a
  key is \<open>AList.update\<close> (in place when the key is there, appended otherwise), \<open>del\<close> is
  \<open>AList.delete\<close>, lookup is \<open>map_of\<close>. Floats are only ever copied, never computed
  with, and are carried as \<open>real\<close>.
\<close>

datatype pyval =
    PNone
  | PBool bool
  | PInt int
  | PFloat real
  | PStr string
  | PList "pyval list"
  | PDict "(string \<times> pyval) list"

type_synonym pydict = "(string \<times> pyval) list"

definition is_dict :: "('k \<times> 'v) list \<Rightarrow> bool" where
  "is_dict d = distinct (map fst d)"

definition has_key :: "'k \<Rightarrow> ('k \<times> 'v) list \<Rightarrow> bool" where
  "has_key k d = (k \<in> set (map fst d))"

definition RNA_UI :: string where
  "RNA_UI = ''_RNA_UI''"

text \<open>
  A mesh vertex is its \<open>index\<close> and its \<open>groups\<close>: the (group index, weight) elements of
  the vertex. The vertex groups of an object are the list of their names; the \<open>index\<close> of
  a group is its position. The host keeps the names of the groups of one object unique,
  so a group handle is identified by its name.
\<close>

type_synonym vertex = "nat \<times> (nat \<times> real) list"

record obj =
  name :: string
  otype :: string
  matrix_world :: "real list list"
  vertex_groups :: "string list"
  vertices :: "vertex list"
  id_props :: pydict

text \<open>
  One entry of the snapshot file, as loaded from JSON: each of the four keys may be
  missing from a file that was not written by the export.
\<close>

record entity_record =
  rec_matrix_world :: "real list list option"
  group_order :: "string list option"
  groups :: "(string \<times> (nat \<times> real) list) list option"
  custom_properties :: "pydict option"

type_synonym snapshot = "(string \<times> entity_record) list"

text \<open>The snapshot file: \<open>None\<close> when it does not exist.\<close>

type_synonym file_system = "snapshot option"

record bpy_context =
  selected_objects :: "obj list"

datatype report = INFO string | WARNING string | ERROR string

datatype op_result = FINISHED | CANCELLED

datatype py_error = KeyError string

definition selected_mesh_objects :: "bpy_context \<Rightarrow> obj list" where
  "selected_mesh_objects ctx = filter (\<lambda>ob. otype ob = ''MESH'') (selected_objects ctx)"

section \<open>Custom properties\<close>

definition get_custom_properties :: "pydict \<Rightarrow> pydict" where
  "get_custom_properties ps =
     (let props = fold (\<lambda>key props.
                     if key = RNA_UI then props
                     else (case map_of ps key of
                             Some v \<Rightarrow> AList.update key v props
                           | None \<Rightarrow> props))
                   (map fst ps) []
      in (case map_of ps RNA_UI of
            Some ui \<Rightarrow> AList.update RNA_UI ui props
          | None \<Rightarrow> props))"

text \<open>The first loop of \<open>apply_custom_properties\<close>, over \<open>list(obj.keys())\<close>.\<close>

fun remove_extras :: "string list \<Rightarrow> pydict \<Rightarrow> pydict \<Rightarrow> pydict" where
  "remove_extras [] props ps = ps"
| "remove_extras (key # keys) props ps =
     (if key = RNA_UI then remove_extras keys props ps
      else if \<not> has_key key props then remove_extras keys props (AList.delete key ps)
      else remove_extras keys props ps)"

text \<open>The second loop, over \<open>props.items()\<close>.\<close>

fun apply_items :: "pydict \<Rightarrow> pydict \<Rightarrow> pydict" where
  "apply_items [] ps = ps"
| "apply_items ((key, v) # items) ps =
     (if key = RNA_UI then apply_items items ps
      else apply_items items (AList.update key v ps))"

definition apply_custom_properties :: "pydict \<Rightarrow> pydict \<Rightarrow> pydict" where
  "apply_custom_properties ps props =
     (let ps1 = remove_extras (map fst ps) props ps;
          ps2 = apply_items props ps1
      in (case map_of props RNA_UI of
            Some ui \<Rightarrow> AList.update RNA_UI ui ps2
          | None \<Rightarrow> ps2))"

section \<open>Export\<close>

definition export_poll :: "bpy_context \<Rightarrow> bool" where
  "export_poll ctx =
     (let objs = selected_mesh_objects ctx
      in if objs = [] then False
         else \<not> list_ex (\<lambda>ob. is_duplicate (name ob)) objs)"

text \<open>The weights of the group with index \<open>vi\<close>: the two inner loops of the export.\<close>

definition collect_weights :: "nat \<Rightarrow> vertex list \<Rightarrow> (nat \<times> real) list" where
  "collect_weights vi vs =
     fold (\<lambda>(vidx, gs) weights.
             fold (\<lambda>(g, w) weights. if g = vi then AList.update vidx w weights else weights)
                  gs weights)
          vs []"

definition export_object :: "obj \<Rightarrow> entity_record" where
  "export_object ob =
     \<lparr> rec_matrix_world = Some (map (\<lambda>row. row) (matrix_world ob)),
       group_order = Some (vertex_groups ob),
       groups = Some (fold (\<lambda>(i, n) gs. AList.update n (collect_weights i (vertices ob)) gs)
                           (enumerate 0 (vertex_groups ob)) []),
       custom_properties = Some (get_custom_properties (id_props ob)) \<rparr>"

definition export_execute ::
  "bpy_context \<Rightarrow> file_system \<Rightarrow> file_system \<times> report list \<times> op_result" where
  "export_execute ctx fs =
     (let data = fold (\<lambda>ob data. AList.update (name ob) (export_object ob) data)
                      (selected_mesh_objects ctx) []
      in (Some data, [INFO ''Original data exported''], FINISHED))"

text \<open>
  Modelled from the spec: the host's trigger surface, which is not part of the source.
  A command is enabled only when its \<open>poll\<close> holds; invoked while disabled it does not
  run \<open>execute\<close> and signals the failed precondition.
\<close>

datatype 'a invocation = PollFailed | Ran 'a

definition invoke_export ::
  "bpy_context \<Rightarrow> file_system \<Rightarrow> file_system \<times> (report list \<times> op_result) invocation" where
  "invoke_export ctx fs =
     (if export_poll ctx
      then (case export_execute ctx fs of (fs', reports, res) \<Rightarrow> (fs', Ran (reports, res)))
      else (fs, PollFailed))"

section \<open>Sync\<close>

text \<open>\<open>obj.vertex_groups.get(group_name)\<close>: the index of the group of that name.\<close>

fun vg_get :: "string \<Rightarrow> string list \<Rightarrow> nat option" where
  "vg_get n [] = None"
| "vg_get n (x # xs) = (if x = n then Some 0 else map_option Suc (vg_get n xs))"

text \<open>
  The host's \<open>vertex_groups.remove\<close>: the group leaves the list, its weights leave every
  vertex, and the elements of the groups behind it are renumbered.
\<close>

definition vertex_groups_remove :: "string \<Rightarrow> obj \<Rightarrow> obj" where
  "vertex_groups_remove n ob =
     (case vg_get n (vertex_groups ob) of
        None \<Rightarrow> ob
      | Some i \<Rightarrow>
          ob\<lparr> vertex_groups := take i (vertex_groups ob) @ drop (Suc i) (vertex_groups ob),
             vertices := map (\<lambda>(vidx, gs).
                               (vidx, map (\<lambda>(g, w). (if i < g then g - 1 else g, w))
                                          (filter (\<lambda>(g, w). g \<noteq> i) gs)))
                             (vertices ob) \<rparr>)"

text \<open>
  The host's \<open>vertex_group_move(direction='UP')\<close> on the active index \<open>i\<close>: the group
  changes place with the one before it, and the vertex elements follow. The first group
  cannot move up.
\<close>

definition vertex_group_move_up :: "nat \<Rightarrow> obj \<Rightarrow> obj" where
  "vertex_group_move_up i ob =
     (if 0 < i \<and> i < length (vertex_groups ob)
      then ob\<lparr> vertex_groups := (vertex_groups ob)[i - 1 := vertex_groups ob ! i,
                                                   i := vertex_groups ob ! (i - 1)],
              vertices := map (\<lambda>(vidx, gs).
                                (vidx, map (\<lambda>(g, w). (if g = i then i - 1
                                                         else if g = i - 1 then i else g, w)) gs))
                              (vertices ob) \<rparr>
      else ob)"

text \<open>
  \<open>while vg.index > target_index\<close>: \<open>i\<close> is the current index of the group; each move
  takes it one place up.
\<close>

fun move_up_to :: "nat \<Rightarrow> nat \<Rightarrow> obj \<Rightarrow> obj" where
  "move_up_to i target_index ob =
     (if target_index < i then move_up_to (i - 1) target_index (vertex_group_move_up i ob)
      else ob)"

declare move_up_to.simps [simp del]

text \<open>\<open>for target_index, group_name in enumerate(desired_order)\<close>.\<close>

fun match_order :: "nat \<Rightarrow> string list \<Rightarrow> obj \<Rightarrow> obj" where
  "match_order target_index [] ob = ob"
| "match_order target_index (group_name # rest) ob =
     match_order (Suc target_index) rest
       (case vg_get group_name (vertex_groups ob) of
          None \<Rightarrow> ob
        | Some i \<Rightarrow> move_up_to i target_index ob)"

definition remove_extra_groups :: "string list \<Rightarrow> obj \<Rightarrow> obj" where
  "remove_extra_groups original_groups ob =
     (let to_remove = filter (\<lambda>n. n \<notin> set original_groups) (vertex_groups ob)
      in fold vertex_groups_remove to_remove ob)"

text \<open>
  The body of the sync loop for one object whose record was found. A missing key of the
  record raises \<open>KeyError\<close>; what was changed before stays changed, so the object is
  returned beside the error. Making the object the active one of the view layer changes
  the host's selection state only, not the object, and is left out.
\<close>

definition sync_object :: "obj \<Rightarrow> entity_record \<Rightarrow> obj \<times> py_error option" where
  "sync_object ob original =
     (case groups original of
        None \<Rightarrow> (ob, Some (KeyError ''groups''))
      | Some gs \<Rightarrow>
          (case group_order original of
             None \<Rightarrow> (ob, Some (KeyError ''group_order''))
           | Some desired_order \<Rightarrow>
               (let o1 = remove_extra_groups (map fst gs) ob;
                    o2 = match_order 0 desired_order o1
                in (case rec_matrix_world original of
                      None \<Rightarrow> (o2, Some (KeyError ''matrix_world''))
                    | Some m \<Rightarrow>
                        (o2\<lparr> matrix_world := m,
                             id_props := apply_custom_properties (id_props o2)
                                           (case custom_properties original of
                                              None \<Rightarrow> []
                                            | Some props \<Rightarrow> props) \<rparr>,
                         None)))))"

text \<open>
  The loop over the selected mesh objects. The result is the reports, the objects after
  the loop, and the exception that ended it, if any: an exception leaves the objects
  behind it as they were.
\<close>

fun sync_loop :: "snapshot \<Rightarrow> obj list \<Rightarrow> report list \<times> obj list \<times> py_error option" where
  "sync_loop original_data [] = ([], [], None)"
| "sync_loop original_data (ob # obs) =
     (case map_of original_data (get_original_name (name ob)) of
        None \<Rightarrow>
          (case sync_loop original_data obs of
             (reports, obs', err) \<Rightarrow>
               (WARNING (''Original not found for '' @ name ob) # reports, ob # obs', err))
      | Some original \<Rightarrow>
          (case sync_object ob original of
             (ob', Some e) \<Rightarrow> ([], ob' # obs, Some e)
           | (ob', None) \<Rightarrow>
               (case sync_loop original_data obs of
                  (reports, obs', err) \<Rightarrow> (reports, ob' # obs', err))))"

definition sync_poll :: "bpy_context \<Rightarrow> file_system \<Rightarrow> bool" where
  "sync_poll ctx fs =
     (let objs = selected_mesh_objects ctx
      in if objs = [] then False
         else if list_ex (\<lambda>ob. \<not> is_duplicate (name ob)) objs then False
         else fs \<noteq> None)"

definition sync_execute ::
  "bpy_context \<Rightarrow> file_system \<Rightarrow> obj list \<times> report list \<times> (py_error + op_result)" where
  "sync_execute ctx fs =
     (case fs of
        None \<Rightarrow> (selected_mesh_objects ctx, [ERROR ''Export file not found''], Inr CANCELLED)
      | Some original_data \<Rightarrow>
          (case sync_loop original_data (selected_mesh_objects ctx) of
             (reports, objs, Some e) \<Rightarrow> (objs, reports, Inl e)
           | (reports, objs, None) \<Rightarrow>
               (objs, reports @ [INFO ''Duplicates synced successfully''], Inr FINISHED)))"

section \<open>Scenarios\<close>

text \<open>
  The objects and the record of the scenarios: the original \<open>Arm\<close>, its record in the
  snapshot, the duplicate \<open>Arm.001\<close> with its groups out of order and one extra group,
  and a duplicate \<open>Leg.002\<close> whose original is not in the snapshot.
\<close>

abbreviation arm_record :: entity_record where
  "arm_record \<equiv>
     \<lparr> rec_matrix_world = Some [[1, 0, 0, 2], [0, 1, 0, 0], [0, 0, 1, 0], [0, 0, 0, 1]],
       group_order = Some [''Root'', ''Mid'', ''Tip''],
       groups = Some [(''Root'', [(0, 1)]), (''Mid'', [(0, 0.5), (1, 0.5)]), (''Tip'', [(1, 1)])],
       custom_properties = Some [(''health'', PInt 5)] \<rparr>"

abbreviation arm_duplicate :: obj where
  "arm_duplicate \<equiv>
     \<lparr> name = ''Arm.001'', otype = ''MESH'', matrix_world = [],
       vertex_groups = [''Tip'', ''Root'', ''Mid'', ''Extra''],
       vertices = [(0, [(1, 1), (3, 0.25)]), (1, [(0, 1), (2, 0.5)])],
       id_props = [(''stale'', PInt 1), (RNA_UI, PDict [(''stamina'', PDict [])])] \<rparr>"

abbreviation leg_duplicate :: obj where
  "leg_duplicate \<equiv>
     \<lparr> name = ''Leg.002'', otype = ''MESH'', matrix_world = [],
       vertex_groups = [''Knee''], vertices = [(0, [(0, 1)])],
       id_props = [(''stale'', PInt 1)] \<rparr>"

abbreviation arm_original :: obj where
  "arm_original \<equiv>
     \<lparr> name = ''Arm'', otype = ''MESH'',
       matrix_world = [[1, 0, 0, 2], [0, 1, 0, 0], [0, 0, 1, 0], [0, 0, 0, 1]],
       vertex_groups = [''Root'', ''Mid'', ''Tip''],
       vertices = [(0, [(0, 1), (1, 0.5)]), (1, [(1, 0.5), (2, 1)])],
       id_props = [(''health'', PInt 5)] \<rparr>"

section \<open>Properties of the naming classifier\<close>

lemma match_here_shape:
  "match_here s \<Longrightarrow>
     \<exists>d1 d2 d3. is_decimal_digit d1 \<and> is_decimal_digit d2 \<and> is_decimal_digit d3 \<and>
       (s = [CHR ''.'', d1, d2, d3] \<or> s = [CHR ''.'', d1, d2, d3, CHR 0x0A])"
  by (induction s rule: match_here.induct) auto

lemma re_sub_no_match: "\<not> re_search s \<Longrightarrow> re_sub s = s"
  by (induction s) auto

lemma newline_not_digit: "\<not> is_decimal_digit (CHR 0x0A)"
  by (simp add: is_decimal_digit_def)

lemma not_match_here_append:
  assumes "is_decimal_digit d3"
  shows "\<not> match_here (c # cs @ [CHR ''.'', d1, d2, d3])"
proof
  assume "match_here (c # cs @ [CHR ''.'', d1, d2, d3])"
  then obtain e1 e2 e3 where
    "c # cs @ [CHR ''.'', d1, d2, d3] = [CHR ''.'', e1, e2, e3] \<or>
     c # cs @ [CHR ''.'', d1, d2, d3] = [CHR ''.'', e1, e2, e3, CHR 0x0A]"
    using match_here_shape by blast
  then show False
  proof
    assume "c # cs @ [CHR ''.'', d1, d2, d3] = [CHR ''.'', e1, e2, e3]"
    then have "length (c # cs @ [CHR ''.'', d1, d2, d3]) = 4" by simp
    then show False by simp
  next
    assume "c # cs @ [CHR ''.'', d1, d2, d3] = [CHR ''.'', e1, e2, e3, CHR 0x0A]"
    then have "last (c # cs @ [CHR ''.'', d1, d2, d3]) = CHR 0x0A" by simp
    then have "d3 = CHR 0x0A" by simp
    with assms newline_not_digit show False by simp
  qed
qed

lemma re_sub_suffix:
  assumes "is_decimal_digit d1" "is_decimal_digit d2" "is_decimal_digit d3"
  shows "re_sub (b @ [CHR ''.'', d1, d2, d3]) = b"
proof (induction b)
  case Nil
  show ?case using assms by simp
next
  case (Cons c cs)
  then show ?case using not_match_here_append [OF assms(3)] by simp
qed

text \<open>
  C2, as stated, fails: the pattern is removed once, so a name that carries two suffixes
  keeps the first one. \<open>Arm.001.002\<close> is stripped to \<open>Arm.001\<close>, which is still
  classified as a duplicate and is not a fixed point of the stripping.
\<close>

theorem get_original_name_stacked_suffix:
  "is_duplicate (get_original_name ''Arm.001.002'') \<and>
   get_original_name (get_original_name ''Arm.001.002'') \<noteq> get_original_name ''Arm.001.002''"
  by (simp add: is_duplicate_def get_original_name_def is_decimal_digit_def)

text \<open>
  C2, amended: stripping removes exactly one trailing suffix. For a name \<open>b\<close> that is not
  a duplicate, both \<open>b\<close> itself and \<open>b\<close> followed by a dot and three decimal digits are
  stripped to \<open>b\<close>; for these names the result is not a duplicate and stripping it again
  changes nothing.
\<close>

theorem get_original_name_single_suffix:
  assumes "\<not> is_duplicate b"
    and "is_decimal_digit d1" and "is_decimal_digit d2" and "is_decimal_digit d3"
    and "n = b \<or> n = b @ [CHR ''.'', d1, d2, d3]"
  shows "get_original_name n = b \<and> \<not> is_duplicate (get_original_name n) \<and>
         get_original_name (get_original_name n) = get_original_name n"
proof -
  have b: "get_original_name b = b"
    using assms(1) by (simp add: is_duplicate_def get_original_name_def re_sub_no_match)
  have "get_original_name n = b"
    using assms(5)
  proof
    assume "n = b"
    with b show ?thesis by simp
  next
    assume "n = b @ [CHR ''.'', d1, d2, d3]"
    then show ?thesis
      using re_sub_suffix [OF assms(2-4)] by (simp add: get_original_name_def)
  qed
  with b assms(1) show ?thesis by simp
qed

theorem get_original_name_single_suffix_witness:
  "\<not> is_duplicate ''Arm'' \<and> is_decimal_digit CHR ''0'' \<and> is_decimal_digit CHR ''1'' \<and>
   get_original_name ''Arm.001'' = ''Arm'' \<and>
   \<not> is_duplicate (get_original_name ''Arm.001'') \<and>
   get_original_name (get_original_name ''Arm.001'') = get_original_name ''Arm.001''"
proof -
  have h1: "\<not> is_duplicate ''Arm''"
    by (simp add: is_duplicate_def)
  have h0: "is_decimal_digit CHR ''0''" and h2: "is_decimal_digit CHR ''1''"
    by (simp_all add: is_decimal_digit_def)
  have h3: "''Arm.001'' = ''Arm'' \<or> ''Arm.001'' = ''Arm'' @ [CHR ''.'', CHR ''0'', CHR ''0'', CHR ''1'']"
    by simp
  show ?thesis
    using get_original_name_single_suffix [OF h1 h0 h0 h2 h3] h1 h0 h2 by blast
qed

section \<open>Properties of the property overlay\<close>

lemma delete_filter: "AList.delete k ps = filter (\<lambda>p. fst p \<noteq> k) ps"
  by (induction ps) auto

lemma remove_extras_filter:
  "remove_extras keys props ps =
     filter (\<lambda>p. \<not> (fst p \<in> set keys \<and> fst p \<noteq> RNA_UI \<and> \<not> has_key (fst p) props)) ps"
proof (induction keys arbitrary: ps)
  case Nil
  show ?case by simp
next
  case (Cons key keys)
  show ?case
    by (auto simp: Cons.IH delete_filter intro!: filter_cong)
qed

lemma remove_extras_own_keys:
  "remove_extras (map fst ps) props ps =
     filter (\<lambda>p. fst p = RNA_UI \<or> has_key (fst p) props) ps"
  unfolding remove_extras_filter by (rule filter_cong) auto

lemma apply_items_RNA_UI: "map_of (apply_items items ps) RNA_UI = map_of ps RNA_UI"
  by (induction items ps rule: apply_items.induct) (auto simp: update_conv')

lemma apply_items_other:
  "\<not> has_key k items \<Longrightarrow> map_of (apply_items items ps) k = map_of ps k"
  by (induction items ps rule: apply_items.induct) (auto simp: update_conv' has_key_def)

lemma apply_items_set:
  "is_dict items \<Longrightarrow> k \<noteq> RNA_UI \<Longrightarrow> map_of items k = Some v \<Longrightarrow>
     map_of (apply_items items ps) k = Some v"
proof (induction items ps rule: apply_items.induct)
  case (1 ps)
  then show ?case by simp
next
  case (2 key w items ps)
  show ?case
  proof (cases "key = k")
    case True
    with 2 have "\<not> has_key k items" "w = v" by (auto simp: is_dict_def has_key_def)
    with True 2 show ?thesis by (simp add: apply_items_other update_conv')
  next
    case False
    with 2 show ?thesis by (auto simp: is_dict_def)
  qed
qed

lemma apply_items_keys:
  "fst ` set (apply_items items ps) \<subseteq> fst ` set ps \<union> fst ` set items"
  by (induction items ps rule: apply_items.induct) (auto simp: dom_update)

lemma apply_items_triv:
  "(\<And>k v. (k, v) \<in> set items \<Longrightarrow> k \<noteq> RNA_UI \<Longrightarrow> map_of ps k = Some v) \<Longrightarrow>
     apply_items items ps = ps"
  by (induction items ps rule: apply_items.induct) (auto simp: update_triv)

lemma apply_custom_properties_keys:
  "fst ` set (apply_custom_properties ps props) \<subseteq> {RNA_UI} \<union> fst ` set props"
proof -
  have "fst ` set (remove_extras (map fst ps) props ps) \<subseteq> {RNA_UI} \<union> fst ` set props"
    unfolding remove_extras_own_keys by (auto simp: has_key_def)
  then have "fst ` set (apply_items props (remove_extras (map fst ps) props ps))
               \<subseteq> {RNA_UI} \<union> fst ` set props"
    using apply_items_keys [of props "remove_extras (map fst ps) props ps"] by blast
  then show ?thesis
    by (auto simp: apply_custom_properties_def Let_def dom_update split: option.splits)
qed

lemma apply_custom_properties_absent:
  assumes "k \<noteq> RNA_UI" and "\<not> has_key k props"
  shows "map_of (apply_custom_properties ps props) k = None"
proof -
  have "k \<notin> fst ` set (apply_custom_properties ps props)"
    using apply_custom_properties_keys [of ps props] assms by (auto simp: has_key_def)
  then show ?thesis by (simp add: map_of_eq_None_iff)
qed

lemma apply_custom_properties_set:
  assumes "is_dict props" and "k \<noteq> RNA_UI" and "map_of props k = Some v"
  shows "map_of (apply_custom_properties ps props) k = Some v"
  using assms
  by (auto simp: apply_custom_properties_def Let_def update_conv' apply_items_set
           split: option.splits)

lemma apply_custom_properties_RNA_UI_present:
  assumes "map_of props RNA_UI = Some ui"
  shows "map_of (apply_custom_properties ps props) RNA_UI = Some ui"
  using assms by (simp add: apply_custom_properties_def Let_def update_conv')

lemma remove_extras_RNA_UI:
  "map_of (remove_extras keys props ps) RNA_UI = map_of ps RNA_UI"
  by (induction keys props ps rule: remove_extras.induct) (auto simp: delete_conv')

lemma apply_custom_properties_RNA_UI_absent:
  assumes "\<not> has_key RNA_UI props"
  shows "map_of (apply_custom_properties ps props) RNA_UI = map_of ps RNA_UI"
proof -
  from assms have "map_of props RNA_UI = None"
    by (simp add: has_key_def map_of_eq_None_iff)
  then show ?thesis
    by (simp add: apply_custom_properties_def Let_def apply_items_RNA_UI remove_extras_RNA_UI)
qed

lemma apply_custom_properties_idem:
  assumes "is_dict props"
  shows "apply_custom_properties (apply_custom_properties ps props) props =
         apply_custom_properties ps props"
proof -
  define r where "r = apply_custom_properties ps props"
  have keys: "fst ` set r \<subseteq> {RNA_UI} \<union> fst ` set props"
    unfolding r_def by (rule apply_custom_properties_keys)
  have "filter (\<lambda>p. fst p = RNA_UI \<or> has_key (fst p) props) r = r"
    using keys by (intro filter_True) (auto simp: has_key_def)
  then have s1: "remove_extras (map fst r) props r = r"
    by (simp add: remove_extras_own_keys)
  have s2: "apply_items props r = r"
  proof (rule apply_items_triv)
    fix k v assume "(k, v) \<in> set props" and "k \<noteq> RNA_UI"
    moreover from this assms have "map_of props k = Some v"
      by (simp add: is_dict_def)
    ultimately show "map_of r k = Some v"
      unfolding r_def using assms by (simp add: apply_custom_properties_set)
  qed
  have s3: "AList.update RNA_UI ui r = r" if "map_of props RNA_UI = Some ui" for ui
    using that unfolding r_def
    by (simp add: update_triv apply_custom_properties_RNA_UI_present)
  have "apply_custom_properties r props = r"
    using s1 s2 s3 by (simp add: apply_custom_properties_def [of r] Let_def split: option.splits)
  then show ?thesis by (simp add: r_def)
qed



lemma vertex_groups_remove_id_props [simp]:
  "id_props (vertex_groups_remove n ob) = id_props ob"
  by (simp add: vertex_groups_remove_def split: option.splits)

lemma fold_vertex_groups_remove_id_props [simp]:
  "id_props (fold vertex_groups_remove ns ob) = id_props ob"
  by (induction ns arbitrary: ob) simp_all

lemma remove_extra_groups_id_props [simp]:
  "id_props (remove_extra_groups ks ob) = id_props ob"
  by (simp add: remove_extra_groups_def)

lemma vertex_group_move_up_id_props [simp]:
  "id_props (vertex_group_move_up i ob) = id_props ob"
  by (simp add: vertex_group_move_up_def)

lemma move_up_to_id_props [simp]:
  "id_props (move_up_to i t ob) = id_props ob"
proof (induction i t ob rule: move_up_to.induct)
  case (1 i t ob)
  then show ?case by (subst move_up_to.simps) simp
qed

lemma match_order_id_props [simp]:
  "id_props (match_order t ord ob) = id_props ob"
  by (induction t ord ob rule: match_order.induct) (simp_all split: option.splits)

text \<open>
  C6: applying the properties of a record to an object deletes every key of the object
  that is neither a key of the record nor the reserved key \<open>_RNA_UI\<close>, gives every
  other key of the record the value of the record, and, when the record has the reserved
  key, makes the reserved key of the object the value of the record as a whole.
\<close>

theorem apply_custom_properties_overlay:
  assumes "is_dict props"
  shows "(\<forall>k. k \<noteq> RNA_UI \<and> \<not> has_key k props \<longrightarrow>
            map_of (apply_custom_properties ps props) k = None) \<and>
         (\<forall>k v. k \<noteq> RNA_UI \<and> map_of props k = Some v \<longrightarrow>
            map_of (apply_custom_properties ps props) k = Some v) \<and>
         (\<forall>ui. map_of props RNA_UI = Some ui \<longrightarrow>
            map_of (apply_custom_properties ps props) RNA_UI = Some ui)"
  using assms
  by (simp add: apply_custom_properties_absent apply_custom_properties_set
        apply_custom_properties_RNA_UI_present)

text \<open>
  C6 at scenario C: the record holds \<open>health\<close> and metadata for \<open>health\<close>; the object has a
  key \<open>stale\<close> and stale metadata for \<open>stamina\<close>.
\<close>

theorem apply_custom_properties_overlay_witness:
  "is_dict [(''health'', PInt 5),
            (RNA_UI, PDict [(''health'', PDict [(''min'', PInt 0), (''max'', PInt 100)])])] \<and>
   map_of (apply_custom_properties
             [(''stale'', PInt 1), (''health'', PInt 3), (RNA_UI, PDict [(''stamina'', PDict [])])]
             [(''health'', PInt 5),
              (RNA_UI, PDict [(''health'', PDict [(''min'', PInt 0), (''max'', PInt 100)])])])
          ''stale'' = None \<and>
   map_of (apply_custom_properties
             [(''stale'', PInt 1), (''health'', PInt 3), (RNA_UI, PDict [(''stamina'', PDict [])])]
             [(''health'', PInt 5),
              (RNA_UI, PDict [(''health'', PDict [(''min'', PInt 0), (''max'', PInt 100)])])])
          ''health'' = Some (PInt 5) \<and>
   map_of (apply_custom_properties
             [(''stale'', PInt 1), (''health'', PInt 3), (RNA_UI, PDict [(''stamina'', PDict [])])]
             [(''health'', PInt 5),
              (RNA_UI, PDict [(''health'', PDict [(''min'', PInt 0), (''max'', PInt 100)])])])
          RNA_UI = Some (PDict [(''health'', PDict [(''min'', PInt 0), (''max'', PInt 100)])])"
proof -
  let ?props = "[(''health'', PInt 5),
            (RNA_UI, PDict [(''health'', PDict [(''min'', PInt 0), (''max'', PInt 100)])])]"
  let ?ps = "[(''stale'', PInt 1), (''health'', PInt 3), (RNA_UI, PDict [(''stamina'', PDict [])])]"
  have d: "is_dict ?props"
    by (simp add: is_dict_def RNA_UI_def)
  have a: "''stale'' \<noteq> RNA_UI \<and> \<not> has_key ''stale'' ?props"
    by (simp add: has_key_def RNA_UI_def)
  have b: "''health'' \<noteq> RNA_UI \<and> map_of ?props ''health'' = Some (PInt 5)"
    by (simp add: RNA_UI_def)
  have c: "map_of ?props RNA_UI = Some (PDict [(''health'', PDict [(''min'', PInt 0), (''max'', PInt 100)])])"
    by (simp add: RNA_UI_def)
  from apply_custom_properties_overlay [OF d, of ?ps] a b c d
  show ?thesis by blast
qed

text \<open>
  C7: applying the properties of the same record a second time changes nothing: the
  whole property store, the reserved key included, is the one of the first application.
\<close>

theorem apply_custom_properties_idempotent:
  assumes "is_dict props"
  shows "apply_custom_properties (apply_custom_properties ps props) props =
         apply_custom_properties ps props"
  using assms by (rule apply_custom_properties_idem)

text \<open>
  C7 at a concrete object and record.
\<close>

theorem apply_custom_properties_idempotent_witness:
  "is_dict [(''health'', PInt 5), (RNA_UI, PDict [(''health'', PDict [])])] \<and>
   apply_custom_properties
     (apply_custom_properties [(''stale'', PInt 1), (RNA_UI, PDict [(''stamina'', PDict [])])]
        [(''health'', PInt 5), (RNA_UI, PDict [(''health'', PDict [])])])
     [(''health'', PInt 5), (RNA_UI, PDict [(''health'', PDict [])])] =
   apply_custom_properties [(''stale'', PInt 1), (RNA_UI, PDict [(''stamina'', PDict [])])]
     [(''health'', PInt 5), (RNA_UI, PDict [(''health'', PDict [])])]"
proof -
  have d: "is_dict [(''health'', PInt 5), (RNA_UI, PDict [(''health'', PDict [])])]"
    by (simp add: is_dict_def RNA_UI_def)
  from apply_custom_properties_idempotent [OF d] d show ?thesis by blast
qed

lemma sync_object_id_props:
  "id_props (fst (sync_object ob original)) =
     (if groups original = None \<or> group_order original = None \<or> rec_matrix_world original = None
      then id_props ob
      else apply_custom_properties (id_props ob)
             (case custom_properties original of None \<Rightarrow> [] | Some props \<Rightarrow> props))"
  by (simp add: sync_object_def Let_def split: option.splits)

text \<open>
  C9: when the record's properties do not have the reserved key \<open>_RNA_UI\<close>, the value of
  the reserved key on the object is the same after the overlay as before, and the same
  after the sync of the object as before: no step deletes or replaces it.
\<close>

theorem sync_keeps_metadata_when_absent:
  assumes "\<not> has_key RNA_UI props"
  shows "map_of (apply_custom_properties ps props) RNA_UI = map_of ps RNA_UI \<and>
         (custom_properties original = Some props \<longrightarrow>
            map_of (id_props (fst (sync_object ob original))) RNA_UI = map_of (id_props ob) RNA_UI)"
  using assms by (simp add: sync_object_id_props apply_custom_properties_RNA_UI_absent)

text \<open>
  C9 at scenario A: the record has no metadata, and the stale metadata of the duplicate
  is still there after the sync.
\<close>

theorem sync_keeps_metadata_when_absent_witness:
  "\<not> has_key RNA_UI [(''health'', PInt 5)] \<and>
   custom_properties arm_record = Some [(''health'', PInt 5)] \<and>
   map_of (id_props (fst (sync_object arm_duplicate arm_record))) RNA_UI =
     Some (PDict [(''stamina'', PDict [])])"
proof -
  have h: "\<not> has_key RNA_UI [(''health'', PInt 5)]"
    by (simp add: has_key_def RNA_UI_def)
  have c: "custom_properties arm_record = Some [(''health'', PInt 5)]"
    by simp
  from sync_keeps_metadata_when_absent [OF h, of "id_props arm_duplicate" arm_record arm_duplicate] h c
  show ?thesis by (simp add: RNA_UI_def)
qed




section \<open>Properties of the export\<close>

text \<open>
  C3: when no mesh object is selected, or a selected mesh object is classified as a
  duplicate, the \<open>poll\<close> of the export fails, so the export is not run: the invocation
  signals the failed precondition and the snapshot file is what it was.
\<close>

theorem export_refuses:
  assumes "selected_mesh_objects ctx = [] \<or>
           (\<exists>ob \<in> set (selected_mesh_objects ctx). is_duplicate (name ob))"
  shows "\<not> export_poll ctx \<and> invoke_export ctx fs = (fs, PollFailed)"
  using assms by (auto simp: export_poll_def invoke_export_def Let_def list_ex_iff)

text \<open>
  C3 at a selection of the original \<open>Arm\<close> and the duplicate \<open>Arm.001\<close>, with a snapshot
  on disk.
\<close>

theorem export_refuses_witness:
  "is_duplicate (name arm_duplicate) \<and>
   invoke_export \<lparr> selected_objects = [arm_original, arm_duplicate] \<rparr> (Some [(''Arm'', arm_record)])
     = (Some [(''Arm'', arm_record)], PollFailed)"
proof -
  have d: "is_duplicate (name arm_duplicate)"
    by (simp add: is_duplicate_def is_decimal_digit_def)
  then have "\<exists>ob \<in> set (selected_mesh_objects \<lparr> selected_objects = [arm_original, arm_duplicate] \<rparr>).
      is_duplicate (name ob)"
    by (simp add: selected_mesh_objects_def)
  then have "selected_mesh_objects \<lparr> selected_objects = [arm_original, arm_duplicate] \<rparr> = [] \<or>
      (\<exists>ob \<in> set (selected_mesh_objects \<lparr> selected_objects = [arm_original, arm_duplicate] \<rparr>).
      is_duplicate (name ob))" ..
  from export_refuses [OF this] d show ?thesis by blast
qed

lemma update_entries: "set (AList.update k v al) \<subseteq> insert (k, v) (set al)"
  by (induction al) auto

lemma export_data_entries:
  "(n, r) \<in> set (fold (\<lambda>ob data. AList.update (name ob) (f ob) data) obs d0) \<Longrightarrow>
     (n, r) \<in> set d0 \<or> (\<exists>ob \<in> set obs. n = name ob \<and> r = f ob)"
proof (induction obs arbitrary: d0)
  case Nil
  then show ?case by simp
next
  case (Cons ob obs)
  from Cons.IH [OF Cons.prems [simplified]] update_entries [of "name ob" "f ob" d0]
  show ?case by auto
qed

lemma export_groups_keys:
  "fst ` set (fold (\<lambda>(i, n) gs. AList.update n (w i) gs) xs g0) = fst ` set g0 \<union> snd ` set xs"
proof (induction xs arbitrary: g0)
  case Nil
  show ?case by simp
next
  case (Cons x xs)
  obtain i n where x: "x = (i, n)" by (cases x)
  have "fst ` set (fold (\<lambda>(i, n) gs. AList.update n (w i) gs) (x # xs) g0) =
        fst ` set (AList.update n (w i) g0) \<union> snd ` set xs"
    by (simp add: x Cons.IH)
  also have "\<dots> = fst ` set g0 \<union> snd ` set (x # xs)"
    by (auto simp: x dom_update)
  finally show ?case .
qed

lemma export_object_keys:
  "\<exists>ord gs. group_order (export_object ob) = Some ord \<and> groups (export_object ob) = Some gs \<and>
     ord = vertex_groups ob \<and> fst ` set gs = set (vertex_groups ob)"
proof -
  have "snd ` set (enumerate 0 (vertex_groups ob)) = set (vertex_groups ob)"
    by (metis list.set_map map_snd_enumerate)
  then show ?thesis
    by (simp add: export_object_def export_groups_keys)
qed

text \<open>
  C8: in every record that the export writes, the names of \<open>group_order\<close> are exactly the
  keys of \<open>groups\<close>, and \<open>group_order\<close> has no name twice. The host keeps the names of the
  vertex groups of an object unique; that is the hypothesis on the selected objects.
\<close>

theorem export_record_invariant:
  assumes "\<forall>ob \<in> set (selected_mesh_objects ctx). distinct (vertex_groups ob)"
    and "fst (export_execute ctx fs) = Some data"
    and "(n, r) \<in> set data"
  shows "\<exists>ord gs. group_order r = Some ord \<and> groups r = Some gs \<and>
           set ord = fst ` set gs \<and> distinct ord"
proof -
  from assms(2) have
    "data = fold (\<lambda>ob data. AList.update (name ob) (export_object ob) data)
              (selected_mesh_objects ctx) []"
    by (simp add: export_execute_def Let_def)
  with assms(3) export_data_entries [of n r export_object "selected_mesh_objects ctx" "[]"]
  obtain ob where ob: "ob \<in> set (selected_mesh_objects ctx)" and r: "r = export_object ob"
    by auto
  from ob assms(1) have "distinct (vertex_groups ob)" by blast
  with export_object_keys [of ob] r show ?thesis by auto
qed

text \<open>
  C8 at the export of the original \<open>Arm\<close>.
\<close>

theorem export_record_invariant_witness:
  "distinct (vertex_groups arm_original) \<and>
   fst (export_execute \<lparr> selected_objects = [arm_original] \<rparr> None)
     = Some [(''Arm'', export_object arm_original)] \<and>
   (\<exists>ord gs. group_order (export_object arm_original) = Some ord \<and>
      groups (export_object arm_original) = Some gs \<and>
      set ord = fst ` set gs \<and> distinct ord)"
proof -
  have h0: "distinct (vertex_groups arm_original)"
    by simp
  have h1: "\<forall>ob \<in> set (selected_mesh_objects \<lparr> selected_objects = [arm_original] \<rparr>).
      distinct (vertex_groups ob)"
    by (simp add: selected_mesh_objects_def)
  have h2: "fst (export_execute \<lparr> selected_objects = [arm_original] \<rparr> None)
     = Some [(''Arm'', export_object arm_original)]"
    by (simp add: export_execute_def selected_mesh_objects_def)
  have h3: "(''Arm'', export_object arm_original) \<in> set [(''Arm'', export_object arm_original)]"
    by simp
  from export_record_invariant [OF h1 h2 h3] h0 h2 show ?thesis by blast
qed

section \<open>Properties of group pruning and reordering\<close>

lemma vg_get_None: "vg_get n xs = None \<longleftrightarrow> n \<notin> set xs"
  by (induction xs) auto

lemma vg_get_Some:
  "vg_get n xs = Some i \<Longrightarrow> i < length xs \<and> xs ! i = n \<and> n \<notin> set (take i xs)"
  by (induction xs arbitrary: i) (auto split: if_splits)







lemma vertex_group_move_up_set:
  "set (vertex_groups (vertex_group_move_up i ob)) = set (vertex_groups ob)"
  using set_swap [of "i - 1" "vertex_groups ob" i]
  by (auto simp: vertex_group_move_up_def)

lemma move_up_to_set:
  "set (vertex_groups (move_up_to i t ob)) = set (vertex_groups ob)"
proof (induction i t ob rule: move_up_to.induct)
  case (1 i t ob)
  then show ?case by (subst move_up_to.simps) (simp add: vertex_group_move_up_set)
qed


lemma swap_adjacent:
  "Suc j < length xs \<Longrightarrow>
     xs[j := xs ! Suc j, Suc j := xs ! j] =
       take j xs @ xs ! Suc j # xs ! j # drop (Suc (Suc j)) xs"
proof (induction xs arbitrary: j)
  case Nil
  then show ?case by simp
next
  case (Cons x xs)
  show ?case
  proof (cases j)
    case 0
    with Cons.prems obtain y ys where "xs = y # ys"
      by (cases xs) auto
    with 0 show ?thesis by simp
  next
    case (Suc j')
    with Cons.prems have "Suc j' < length xs" by simp
    from Cons.IH [OF this] Suc show ?thesis by simp
  qed
qed

lemma swap_with_previous:
  assumes "0 < i" and "i < length xs"
  shows "xs[i - 1 := xs ! i, i := xs ! (i - 1)] =
         take (i - 1) xs @ xs ! i # xs ! (i - 1) # drop (Suc i) xs"
proof -
  from assms(1) obtain j where j: "i = Suc j"
    by (cases i) auto
  with assms(2) have "Suc j < length xs" by simp
  from swap_adjacent [OF this] j show ?thesis by simp
qed

lemma vertex_group_move_up_names:
  assumes "0 < i" and "i < length (vertex_groups ob)"
  shows "vertex_groups (vertex_group_move_up i ob) =
         take (i - 1) (vertex_groups ob) @ vertex_groups ob ! i # vertex_groups ob ! (i - 1)
           # drop (Suc i) (vertex_groups ob)"
  using assms swap_with_previous [OF assms]
  by (simp add: vertex_group_move_up_def)

lemma move_up_to_names:
  "t \<le> i \<Longrightarrow> i < length (vertex_groups ob) \<Longrightarrow>
     vertex_groups (move_up_to i t ob) =
       take t (vertex_groups ob) @ vertex_groups ob ! i
         # take (i - t) (drop t (vertex_groups ob)) @ drop (Suc i) (vertex_groups ob)"
proof (induction i t ob rule: move_up_to.induct)
  case (1 i t ob)
  let ?xs = "vertex_groups ob"
  show ?case
  proof (cases "t < i")
    case False
    with 1 have "i = t" by simp
    then show ?thesis
      using 1(3) by (subst move_up_to.simps) (simp add: id_take_nth_drop [symmetric])
  next
    case True
    let ?ob' = "vertex_group_move_up i ob"
    let ?ys = "vertex_groups ?ob'"
    have ys: "?ys = take (i - 1) ?xs @ ?xs ! i # ?xs ! (i - 1) # drop (Suc i) ?xs"
      using True 1(3) by (intro vertex_group_move_up_names) auto
    have len: "length ?ys = length ?xs"
      using True 1(3) by (simp add: vertex_group_move_up_def)
    have ih: "vertex_groups (move_up_to (i - 1) t ?ob') =
                take t ?ys @ ?ys ! (i - 1) # take (i - 1 - t) (drop t ?ys) @ drop (Suc (i - 1)) ?ys"
      using True 1(3) len by (intro 1(1)) auto
    have a: "take t ?ys = take t ?xs"
      using True 1(3) by (simp add: ys)
    have b: "?ys ! (i - 1) = ?xs ! i"
      using True 1(3) by (simp add: ys nth_append)
    have c: "take (i - 1 - t) (drop t ?ys) = take (i - 1 - t) (drop t ?xs)"
      using True 1(3) by (simp add: ys take_drop)
    have d: "drop (Suc (i - 1)) ?ys = ?xs ! (i - 1) # drop (Suc i) ?xs"
      using True 1(3) by (simp add: ys)
    have e: "take (i - t) (drop t ?xs) = take (i - 1 - t) (drop t ?xs) @ [?xs ! (i - 1)]"
    proof -
      have "i - t = Suc (i - 1 - t)" using True by simp
      moreover have "i - 1 - t < length (drop t ?xs)" using True 1(3) by simp
      moreover have "drop t ?xs ! (i - 1 - t) = ?xs ! (i - 1)" using True 1(3) by simp
      ultimately show ?thesis by (simp add: take_Suc_conv_app_nth)
    qed
    have "vertex_groups (move_up_to i t ob) = vertex_groups (move_up_to (i - 1) t ?ob')"
      using True by (subst move_up_to.simps) simp
    also have "\<dots> = take t ?ys @ ?ys ! (i - 1) # take (i - 1 - t) (drop t ?ys)
                       @ drop (Suc (i - 1)) ?ys"
      by (rule ih)
    also have "\<dots> = take t ?xs @ ?xs ! i # take (i - 1 - t) (drop t ?xs)
                       @ ?xs ! (i - 1) # drop (Suc i) ?xs"
      by (simp only: a b c d)
    also have "\<dots> = take t ?xs @ ?xs ! i # take (i - t) (drop t ?xs) @ drop (Suc i) ?xs"
      by (simp only: e append_assoc append_Cons append_Nil)
    finally show ?thesis .
  qed
qed


lemma move_up_to_distinct_names:
  assumes "distinct (vertex_groups ob)" and "vg_get g (vertex_groups ob) = Some i"
    and "g \<notin> set (take t (vertex_groups ob))"
  shows "vertex_groups (move_up_to i t ob) =
         take t (vertex_groups ob) @ g # remove1 g (drop t (vertex_groups ob))"
proof -
  let ?xs = "vertex_groups ob"
  from vg_get_Some [OF assms(2)] have i: "i < length ?xs" and g: "?xs ! i = g"
    by simp_all
  have ti: "t \<le> i"
  proof (rule ccontr)
    assume "\<not> t \<le> i"
    then have "i < t" by simp
    with i have "?xs ! i \<in> set (take t ?xs)"
      by (metis in_set_conv_nth length_take min_less_iff_conj nth_take)
    with g assms(3) show False by simp
  qed
  have split: "drop t ?xs = take (i - t) (drop t ?xs) @ g # drop (Suc i) ?xs"
  proof -
    have "i - t < length (drop t ?xs)" using i ti by simp
    from id_take_nth_drop [OF this] show ?thesis
      using ti i g by simp
  qed
  have "distinct (drop t ?xs)" using assms(1) by simp
  with split have "g \<notin> set (take (i - t) (drop t ?xs))"
    by (metis disjoint_insert(1) distinct_append list.simps(15))
  then have "remove1 g (drop t ?xs) = take (i - t) (drop t ?xs) @ drop (Suc i) ?xs"
    by (subst split) (simp add: remove1_append)
  with move_up_to_names [OF ti i] g show ?thesis by simp
qed

lemma match_order_names:
  assumes "distinct (vertex_groups ob)" and "distinct ord"
    and "set ord \<subseteq> set (vertex_groups ob)"
    and "set ord \<inter> set (take t (vertex_groups ob)) = {}"
  shows "vertex_groups (match_order t ord ob) =
         take t (vertex_groups ob) @ ord @ filter (\<lambda>n. n \<notin> set ord) (drop t (vertex_groups ob))"
  using assms
proof (induction ord arbitrary: t ob)
  case Nil
  then show ?case by simp
next
  case (Cons g rest)
  let ?xs = "vertex_groups ob"
  from Cons.prems(3) have "g \<in> set ?xs" by simp
  then obtain i where i: "vg_get g ?xs = Some i"
    using vg_get_None [of g ?xs] by (cases "vg_get g ?xs") auto
  from Cons.prems(4) have gt: "g \<notin> set (take t ?xs)" by simp
  let ?ob1 = "move_up_to i t ob"
  let ?ys = "vertex_groups ?ob1"
  have ys: "?ys = take t ?xs @ g # remove1 g (drop t ?xs)"
    using move_up_to_distinct_names [OF Cons.prems(1) i gt] .
  have tl: "t \<le> length ?xs"
  proof (rule ccontr)
    assume "\<not> t \<le> length ?xs"
    then have "take t ?xs = ?xs" by simp
    with gt \<open>g \<in> set ?xs\<close> show False by simp
  qed
  have set_ys: "set ?ys = set ?xs"
    by (rule move_up_to_set)
  have d_ys: "distinct ?ys"
  proof -
    have "distinct (take t ?xs @ drop t ?xs)" using Cons.prems(1) by simp
    then have dd: "distinct (take t ?xs)" "distinct (drop t ?xs)"
        "set (take t ?xs) \<inter> set (drop t ?xs) = {}"
      unfolding distinct_append by blast+
    have "set (remove1 g (drop t ?xs)) = set (drop t ?xs) - {g}"
      using dd(2) by (rule set_remove1_eq)
    with dd gt show ?thesis
      unfolding ys by (auto simp: distinct_remove1)
  qed
  have take_ys: "take (Suc t) ?ys = take t ?xs @ [g]"
    using tl by (simp add: ys)
  have drop_ys: "drop (Suc t) ?ys = remove1 g (drop t ?xs)"
    using tl by (simp add: ys)
  have p1: "distinct rest" using Cons.prems(2) by simp
  have p2: "set rest \<subseteq> set ?ys" using Cons.prems(3) set_ys by simp
  have p3: "set rest \<inter> set (take (Suc t) ?ys) = {}"
    using Cons.prems(2,4) by (auto simp: take_ys)
  have ih: "vertex_groups (match_order (Suc t) rest ?ob1) =
            take (Suc t) ?ys @ rest @ filter (\<lambda>n. n \<notin> set rest) (drop (Suc t) ?ys)"
    by (rule Cons.IH [OF d_ys p1 p2 p3])
  have "distinct (drop t ?xs)" using Cons.prems(1) by simp
  then have "remove1 g (drop t ?xs) = filter (\<lambda>n. g \<noteq> n) (drop t ?xs)"
    by (simp add: distinct_remove1_removeAll removeAll_filter_not_eq)
  then have f: "filter (\<lambda>n. n \<notin> set rest) (remove1 g (drop t ?xs)) =
             filter (\<lambda>n. n \<notin> set (g # rest)) (drop t ?xs)"
    by (auto intro: filter_cong)
  have "vertex_groups (match_order t (g # rest) ob) = vertex_groups (match_order (Suc t) rest ?ob1)"
    using i by simp
  also have "\<dots> = take t ?xs @ (g # rest) @ filter (\<lambda>n. n \<notin> set (g # rest)) (drop t ?xs)"
    unfolding ih take_ys drop_ys f by simp
  finally show ?case .
qed

text \<open>
  When every name of the target order is a group of the object, the loop does reach the
  order: the named groups come first, in the order given, and the other groups follow
  in the order they had.
\<close>

lemma match_order_reaches_order:
  assumes "distinct (vertex_groups ob)" and "distinct ord"
    and "set ord \<subseteq> set (vertex_groups ob)"
  shows "vertex_groups (match_order 0 ord ob) =
         ord @ filter (\<lambda>n. n \<notin> set ord) (vertex_groups ob)"
  using match_order_names [OF assms, of 0] by simp


text \<open>
  C1 fails on the code when a name of \<open>group_order\<close> is missing on the object: the target
  index still counts the skipped name, so the groups behind it are never moved far
  enough. The record orders \<open>Root, Mid, Tip\<close>; the duplicate has \<open>Tip, Mid\<close> and no
  \<open>Root\<close>; after the sync its groups are still \<open>Tip, Mid\<close>, not \<open>Mid, Tip\<close>.
\<close>

theorem match_order_skips_target_index:
  "vertex_groups (fst (sync_object
      \<lparr> name = ''Arm.001'', otype = ''MESH'', matrix_world = [],
        vertex_groups = [''Tip'', ''Mid''], vertices = [], id_props = [] \<rparr>
      arm_record)) = [''Tip'', ''Mid'']"
  by (simp add: sync_object_def remove_extra_groups_def vertex_groups_remove_def
        move_up_to.simps vertex_group_move_up_def)


section \<open>Properties of the sync\<close>





lemma sync_loop_append:
  "sync_loop d (pre @ post) =
     (case sync_loop d pre of
        (rs1, pre', Some e) \<Rightarrow> (rs1, pre' @ post, Some e)
      | (rs1, pre', None) \<Rightarrow>
          (case sync_loop d post of (rs2, post', err) \<Rightarrow> (rs1 @ rs2, pre' @ post', err)))"
proof (induction pre)
  case Nil
  show ?case by (simp split: prod.splits)
next
  case (Cons ob pre)
  show ?case
    by (simp add: Cons.IH split: prod.splits option.splits)
qed

text \<open>
  C5: an object of the batch whose original name has no entry in the snapshot is left
  as it is, a warning that names it is reported, and the objects behind it are synced
  as they would be without it. Only an exception raised for an object before it ends
  the batch early; the object is unchanged then as well.
\<close>

theorem sync_lookup_miss_skips:
  assumes "map_of original_data (get_original_name (name ob)) = None"
  shows "sync_loop original_data (pre @ ob # post) =
     (case sync_loop original_data pre of
        (reports1, pre', Some e) \<Rightarrow> (reports1, pre' @ ob # post, Some e)
      | (reports1, pre', None) \<Rightarrow>
          (case sync_loop original_data post of
             (reports2, post', err) \<Rightarrow>
               (reports1 @ WARNING (''Original not found for '' @ name ob) # reports2,
                pre' @ ob # post', err)))"
  using assms by (simp add: sync_loop_append split: prod.splits option.splits)

text \<open>
  C5 at scenario B: \<open>Leg.002\<close> has no original in the snapshot; it is reported and left
  alone, and \<open>Arm.001\<close> behind it is synced.
\<close>

theorem sync_lookup_miss_skips_witness:
  "map_of [(''Arm'', arm_record)] (get_original_name (name leg_duplicate)) = None \<and>
   sync_loop [(''Arm'', arm_record)] [leg_duplicate, arm_duplicate] =
     ([WARNING ''Original not found for Leg.002''],
      [leg_duplicate, fst (sync_object arm_duplicate arm_record)], None)"
proof -
  have h: "map_of [(''Arm'', arm_record)] (get_original_name (name leg_duplicate)) = None"
    by (simp add: get_original_name_def is_decimal_digit_def)
  have a: "sync_loop [(''Arm'', arm_record)] [arm_duplicate] =
            ([], [fst (sync_object arm_duplicate arm_record)], None)"
    by (simp add: get_original_name_def is_decimal_digit_def sync_object_def Let_def)
  from sync_lookup_miss_skips [OF h, of "[]" "[arm_duplicate]"] h a
  show ?thesis by simp
qed

end
